theory Spec2Isabelle
  imports Main
begin

section \<open>The liveness check of the Steammarketplace2 local servers\<close>

text \<open>
  The development embeds \<^verbatim>\<open>check_server_status\<close> of
  \<^verbatim>\<open>src/tools/steam_tools.py\<close>:
  \<^verbatim>\<open>
  def check_server_status() -> Dict[str, str]:
      servers = {
          "frontend": ("localhost", 3002),
          "backend": ("localhost", 3001),
          "redis": ("localhost", 6379)
      }
      status = {}
      for name, (host, port) in servers.items():
          try:
              with socket.create_connection((host, port), timeout=1):
                  status[name] = "UP"
          except (socket.timeout, ConnectionRefusedError, OSError):
              status[name] = "DOWN"
      return status
  \<close>
  The function talks to the network and mutates a dictionary object, so the model threads
  an explicit state through it: the dictionary objects of the program (a heap), the
  network as the function sees it, and the sequence of socket operations performed so far.
\<close>

subsection \<open>Exceptions\<close>

text \<open>
  The exceptions the socket operations can raise, as far as the handler tells them
  apart. \<open>SocketTimeout\<close> is \<^verbatim>\<open>socket.timeout\<close>, \<open>GaiError\<close> is
  \<^verbatim>\<open>socket.gaierror\<close> (a failed name resolution), \<open>OSError\<close> is any other
  operating-system error (host or network unreachable, no descriptors left, an error
  reported on close, ...). \<open>KeyboardInterrupt\<close> stands for the exceptions that are no
  \<^verbatim>\<open>OSError\<close>: it is raised inside a blocking call when the user interrupts the
  process.
\<close>

datatype py_exception =
  SocketTimeout | ConnectionRefusedError | GaiError | OSError | KeyboardInterrupt

text \<open>Python's class hierarchy: all but \<open>KeyboardInterrupt\<close> derive from \<^verbatim>\<open>OSError\<close>.\<close>

fun isinstance_socket_timeout :: "py_exception \<Rightarrow> bool" where
  "isinstance_socket_timeout SocketTimeout = True"
| "isinstance_socket_timeout _ = False"

fun isinstance_ConnectionRefusedError :: "py_exception \<Rightarrow> bool" where
  "isinstance_ConnectionRefusedError ConnectionRefusedError = True"
| "isinstance_ConnectionRefusedError _ = False"

fun isinstance_OSError :: "py_exception \<Rightarrow> bool" where
  "isinstance_OSError KeyboardInterrupt = False"
| "isinstance_OSError _ = True"

text \<open>The clause \<^verbatim>\<open>except (socket.timeout, ConnectionRefusedError, OSError)\<close>.\<close>

definition except_clause :: "py_exception \<Rightarrow> bool" where
  "except_clause e \<longleftrightarrow>
     isinstance_socket_timeout e \<or> isinstance_ConnectionRefusedError e \<or> isinstance_OSError e"

subsection \<open>State: dictionaries, network, socket operations\<close>

text \<open>
  A \<^verbatim>\<open>Dict[str, str]\<close> keeps its keys in insertion order, so it is an association
  list. \<^verbatim>\<open>d[k] = v\<close> overwrites the value of a key that is present, in place, and
  appends a new key at the end.
\<close>

type_synonym pydict = "(string \<times> string) list"

fun dict_setitem :: "pydict \<Rightarrow> string \<Rightarrow> string \<Rightarrow> pydict" where
  "dict_setitem [] k v = [(k, v)]"
| "dict_setitem ((k', v') # d) k v =
     (if k' = k then (k', v) # d else (k', v') # dict_setitem d k v)"

type_synonym address = "string \<times> int"

datatype conn_outcome = Established | Raises py_exception

datatype event = Connect address int | Close address

text \<open>
  The network as a call meets it. \<open>connecting a t\<close> is what a connection attempt to
  address \<open>a\<close> with timeout \<open>t\<close> meets. \<open>closing a\<close> is what closing an established
  connection to \<open>a\<close> meets: \<open>None\<close> when \<^verbatim>\<open>close()\<close> returns, \<open>Some e\<close> when it
  raises \<open>e\<close>. The network is the same for the whole of a call: what an address answers
  does not change between the probes of one call.
\<close>

record network =
  connecting :: "address \<Rightarrow> int \<Rightarrow> conn_outcome"
  closing :: "address \<Rightarrow> py_exception option"

text \<open>
  \<open>heap\<close> holds the dictionary objects of the program; a reference is an index into it.
  \<open>log\<close> records the socket operations in the order they are performed.
\<close>

record pystate =
  heap :: "pydict list"
  net :: network
  log :: "event list"

text \<open>The dict display \<^verbatim>\<open>{}\<close>: a new object, at a reference not in use.\<close>

definition new_dict :: "pystate \<Rightarrow> nat \<times> pystate" where
  "new_dict s = (length (heap s), s\<lparr>heap := heap s @ [[]]\<rparr>)"

text \<open>\<^verbatim>\<open>status[name] = v\<close> on the object behind a reference.\<close>

definition setitem :: "nat \<Rightarrow> string \<Rightarrow> string \<Rightarrow> pystate \<Rightarrow> pystate" where
  "setitem r k v s = s\<lparr>heap := (heap s)[r := dict_setitem (heap s ! r) k v]\<rparr>"

text \<open>\<^verbatim>\<open>socket.create_connection((host, port), timeout=t)\<close>.\<close>

definition create_connection :: "address \<Rightarrow> int \<Rightarrow> pystate \<Rightarrow> conn_outcome \<times> pystate" where
  "create_connection a t s = (connecting (net s) a t, s\<lparr>log := log s @ [Connect a t]\<rparr>)"

text \<open>
  Leaving the \<^verbatim>\<open>with\<close> block calls \<^verbatim>\<open>close()\<close> on the socket it manages; the
  result is \<open>Some e\<close> when the call raises \<open>e\<close>.
\<close>

definition sock_close :: "address \<Rightarrow> pystate \<Rightarrow> py_exception option \<times> pystate" where
  "sock_close a s = (closing (net s) a, s\<lparr>log := log s @ [Close a]\<rparr>)"

subsection \<open>The function\<close>

text \<open>
  The dict display \<open>servers\<close>, in insertion order. It is local, never written and never
  leaves the call, so it is kept as a value.
\<close>

definition servers :: "(string \<times> address) list" where
  "servers =
     [(''frontend'', (''localhost'', 3002)),
      (''backend'', (''localhost'', 3001)),
      (''redis'', (''localhost'', 6379))]"

text \<open>
  An exception \<open>e\<close> raised inside the \<^verbatim>\<open>try\<close> block: the \<^verbatim>\<open>except\<close> clause
  catches it and records DOWN, or it leaves the statement. The result is \<open>None\<close> when
  the statement completes and \<open>Some e\<close> when \<open>e\<close> leaves it uncaught.
\<close>

definition except_handler :: "nat \<Rightarrow> string \<Rightarrow> py_exception \<Rightarrow> pystate \<Rightarrow> py_exception option \<times> pystate" where
  "except_handler status name e s =
     (if except_clause e then (None, setitem status name ''DOWN'' s) else (Some e, s))"

text \<open>
  The body of the loop for one item. The whole \<^verbatim>\<open>with\<close> statement stands inside
  the \<^verbatim>\<open>try\<close> block: an exception of \<^verbatim>\<open>create_connection\<close> and an exception
  of the \<^verbatim>\<open>close()\<close> that ends the \<^verbatim>\<open>with\<close> block both reach the handler, the
  second after UP has been recorded.
\<close>

definition loop_body :: "nat \<Rightarrow> string \<Rightarrow> address \<Rightarrow> pystate \<Rightarrow> py_exception option \<times> pystate" where
  "loop_body status name a s =
     (case create_connection a 1 s of
        (Established, s1) \<Rightarrow>
          (case sock_close a (setitem status name ''UP'' s1) of
             (None, s2) \<Rightarrow> (None, s2)
           | (Some e, s2) \<Rightarrow> except_handler status name e s2)
      | (Raises e, s1) \<Rightarrow> except_handler status name e s1)"

text \<open>The \<^verbatim>\<open>for\<close> loop over \<^verbatim>\<open>servers.items()\<close>; an uncaught exception ends it.\<close>

fun for_loop :: "nat \<Rightarrow> (string \<times> address) list \<Rightarrow> pystate \<Rightarrow> py_exception option \<times> pystate" where
  "for_loop status [] s = (None, s)"
| "for_loop status ((name, a) # items) s =
     (case loop_body status name a s of
        (None, s1) \<Rightarrow> for_loop status items s1
      | (Some e, s1) \<Rightarrow> (Some e, s1))"

text \<open>
  The call: \<open>Inr r\<close> returns the reference \<open>r\<close> of the status dictionary, \<open>Inl e\<close> raises
  \<open>e\<close> to the caller.
\<close>

definition check_server_status :: "pystate \<Rightarrow> (py_exception + nat) \<times> pystate" where
  "check_server_status s =
     (case new_dict s of (status, s1) \<Rightarrow>
        (case for_loop status servers s1 of
           (None, s2) \<Rightarrow> (Inr status, s2)
         | (Some e, s2) \<Rightarrow> (Inl e, s2)))"

subsection \<open>Notions the properties are stated with\<close>

text \<open>
  The transport-level failures of a socket operation: timeout, connection refused,
  failed name resolution, and any other operating-system error.
\<close>

fun transport_error :: "py_exception \<Rightarrow> bool" where
  "transport_error SocketTimeout = True"
| "transport_error ConnectionRefusedError = True"
| "transport_error GaiError = True"
| "transport_error OSError = True"
| "transport_error KeyboardInterrupt = False"

text \<open>
  What the probe of an address comes to, read off the network: the connection is
  established and closed without error (\<open>Up\<close>); connecting or closing fails at transport
  level (\<open>Down\<close>); or connecting or closing raises something else, which escapes.
\<close>

datatype verdict = Up | Down | Escapes py_exception

definition probe_verdict :: "network \<Rightarrow> address \<Rightarrow> verdict" where
  "probe_verdict nt a =
     (case connecting nt a 1 of
        Established \<Rightarrow>
          (case closing nt a of
             None \<Rightarrow> Up
           | Some e \<Rightarrow> if transport_error e then Down else Escapes e)
      | Raises e \<Rightarrow> if transport_error e then Down else Escapes e)"

fun completes :: "verdict \<Rightarrow> bool" where
  "completes (Escapes e) = False"
| "completes _ = True"

definition status_of :: "verdict \<Rightarrow> string" where
  "status_of v = (if v = Up then ''UP'' else ''DOWN'')"

text \<open>Every probe of the call succeeds or fails at transport level.\<close>

definition every_probe_completes :: "pystate \<Rightarrow> bool" where
  "every_probe_completes s \<longleftrightarrow>
     (\<forall>(name, a) \<in> set servers. completes (probe_verdict (net s) a))"

text \<open>The dictionary a call returns, read from the heap of the state it leaves.\<close>

definition returned_report :: "(py_exception + nat) \<times> pystate \<Rightarrow> pydict option" where
  "returned_report res = (case res of (Inr r, s') \<Rightarrow> Some (heap s' ! r) | (Inl e, s') \<Rightarrow> None)"

text \<open>What a call produces: the exception it raises or the content of the dictionary it returns.\<close>

definition call_outcome :: "(py_exception + nat) \<times> pystate \<Rightarrow> py_exception + pydict" where
  "call_outcome res = (case res of (Inr r, s') \<Rightarrow> Inr (heap s' ! r) | (Inl e, s') \<Rightarrow> Inl e)"

text \<open>The addresses of the connection attempts in a sequence of socket operations.\<close>

fun connects :: "event list \<Rightarrow> address list" where
  "connects [] = []"
| "connects (Connect a t # evs) = a # connects evs"
| "connects (Close a # evs) = connects evs"


text \<open>The socket operations of one probe and of the whole loop, as functions of the network.\<close>

definition probe_events :: "network \<Rightarrow> address \<Rightarrow> event list" where
  "probe_events nt a =
     (case connecting nt a 1 of
        Established \<Rightarrow> [Connect a 1, Close a]
      | Raises e \<Rightarrow> [Connect a 1])"

fun loop_events :: "network \<Rightarrow> (string \<times> address) list \<Rightarrow> event list" where
  "loop_events nt [] = []"
| "loop_events nt ((n, a) # items) =
     probe_events nt a @ (if completes (probe_verdict nt a) then loop_events nt items else [])"

text \<open>
  What the loop produces from a dictionary \<open>d\<close>, as a function of the network: the
  exception that leaves it, or the dictionary at its end.
\<close>

fun loop_outcome :: "network \<Rightarrow> (string \<times> address) list \<Rightarrow> pydict \<Rightarrow> py_exception + pydict" where
  "loop_outcome nt [] d = Inr d"
| "loop_outcome nt ((n, a) # items) d =
     (case probe_verdict nt a of
        Escapes e \<Rightarrow> Inl e
      | v \<Rightarrow> loop_outcome nt items (dict_setitem d n (status_of v)))"

subsection \<open>The prober of the specification\<close>

text \<open>
  Section 4.1 of the specification words the prober as
  \<^verbatim>\<open>check_status(targets, timeout_seconds)\<close>: for each target of a caller-supplied
  sequence, attempt a connection bounded by the timeout; on success close the connection
  at once and record UP; on a transport-level failure of the attempt record DOWN. Section
  7 has only transport-level errors turned into data, so any other exception of the
  attempt leaves the prober. The words give the closing no outcome of its own. The
  definitions below follow those words, to be compared with \<open>check_server_status\<close>.
\<close>

type_synonym target = "string \<times> string \<times> int"

definition spec_probe :: "int \<Rightarrow> nat \<Rightarrow> target \<Rightarrow> pystate \<Rightarrow> py_exception option \<times> pystate" where
  "spec_probe timeout_seconds report tg s =
     (case tg of (name, host, port) \<Rightarrow>
        (case create_connection (host, port) timeout_seconds s of
           (Established, s1) \<Rightarrow>
             (case sock_close (host, port) s1 of
                (c, s2) \<Rightarrow> (None, setitem report name ''UP'' s2))
         | (Raises e, s1) \<Rightarrow>
             if transport_error e then (None, setitem report name ''DOWN'' s1)
             else (Some e, s1)))"

fun spec_probe_all :: "int \<Rightarrow> nat \<Rightarrow> target list \<Rightarrow> pystate \<Rightarrow> py_exception option \<times> pystate" where
  "spec_probe_all timeout_seconds report [] s = (None, s)"
| "spec_probe_all timeout_seconds report (tg # targets) s =
     (case spec_probe timeout_seconds report tg s of
        (None, s1) \<Rightarrow> spec_probe_all timeout_seconds report targets s1
      | (Some e, s1) \<Rightarrow> (Some e, s1))"

definition spec_check_status :: "target list \<Rightarrow> int \<Rightarrow> pystate \<Rightarrow> (py_exception + nat) \<times> pystate" where
  "spec_check_status targets timeout_seconds s =
     (case new_dict s of (report, s1) \<Rightarrow>
        (case spec_probe_all timeout_seconds report targets s1 of
           (None, s2) \<Rightarrow> (Inr report, s2)
         | (Some e, s2) \<Rightarrow> (Inl e, s2)))"

subsection \<open>Calls in progress and concurrent calls\<close>

text \<open>
  A call in progress is a frame: it has just been entered, or it is in the loop with its
  local \<open>status\<close> and the items still to visit, or it has returned its dictionary, or it
  has raised.
\<close>

datatype frame = Entered | Looping nat "(string \<times> address) list" | Returned nat | Raised py_exception

text \<open>
  One action of a call: creating the status dictionary, one pass through the loop body,
  or the return. A frame that has returned or raised stays as it is.
\<close>

fun frame_step :: "frame \<Rightarrow> pystate \<Rightarrow> frame \<times> pystate" where
  "frame_step Entered s = (case new_dict s of (status, s1) \<Rightarrow> (Looping status servers, s1))"
| "frame_step (Looping status []) s = (Returned status, s)"
| "frame_step (Looping status ((name, a) # items)) s =
     (case loop_body status name a s of
        (None, s1) \<Rightarrow> (Looping status items, s1)
      | (Some e, s1) \<Rightarrow> (Raised e, s1))"
| "frame_step (Returned r) s = (Returned r, s)"
| "frame_step (Raised e) s = (Raised e, s)"

text \<open>
  Two calls on one state take turns as a schedule tells: \<open>True\<close> lets the first call do
  its next action, \<open>False\<close> the second.
\<close>

fun interleave :: "bool list \<Rightarrow> frame \<Rightarrow> frame \<Rightarrow> pystate \<Rightarrow> frame \<times> frame \<times> pystate" where
  "interleave [] f1 f2 s = (f1, f2, s)"
| "interleave (b # bs) f1 f2 s =
     (if b then (case frame_step f1 s of (f1', s') \<Rightarrow> interleave bs f1' f2 s')
      else (case frame_step f2 s of (f2', s') \<Rightarrow> interleave bs f1 f2' s'))"

text \<open>The dictionary a frame holds, and whether the call is over.\<close>

fun frame_ref :: "frame \<Rightarrow> nat option" where
  "frame_ref (Looping status items) = Some status"
| "frame_ref (Returned r) = Some r"
| "frame_ref _ = None"

fun finished :: "frame \<Rightarrow> bool" where
  "finished (Returned r) = True"
| "finished (Raised e) = True"
| "finished _ = False"

text \<open>The number of actions a frame has left at most.\<close>

fun frame_left :: "frame \<Rightarrow> nat" where
  "frame_left Entered = Suc (Suc (length servers))"
| "frame_left (Looping status items) = Suc (length items)"
| "frame_left (Returned r) = 0"
| "frame_left (Raised e) = 0"

text \<open>
  What a frame is going to produce, read off the network and the dictionary it holds:
  the exception it raises or the content of the dictionary it returns.
\<close>

fun frame_outcome :: "network \<Rightarrow> pydict list \<Rightarrow> frame \<Rightarrow> py_exception + pydict" where
  "frame_outcome nt h Entered = loop_outcome nt servers []"
| "frame_outcome nt h (Looping status items) = loop_outcome nt items (h ! status)"
| "frame_outcome nt h (Returned r) = Inr (h ! r)"
| "frame_outcome nt h (Raised e) = Inl e"

text \<open>The frames hold dictionaries that exist, and not the same one.\<close>

definition frames_apart :: "frame \<Rightarrow> frame \<Rightarrow> pydict list \<Rightarrow> bool" where
  "frames_apart f1 f2 h \<longleftrightarrow>
     (\<forall>r. frame_ref f1 = Some r \<longrightarrow> r < length h) \<and>
     (\<forall>r. frame_ref f2 = Some r \<longrightarrow> r < length h) \<and>
     (\<forall>r. frame_ref f1 = Some r \<longrightarrow> frame_ref f2 \<noteq> Some r)"

subsection \<open>Concrete states\<close>

text \<open>Only the backend listens; no dictionary exists yet and no socket was used.\<close>

definition s_backend_up :: pystate where
  "s_backend_up =
     \<lparr>heap = [],
      net = \<lparr>connecting = (\<lambda>a t. if a = (''localhost'', 3001) then Established
                                  else Raises ConnectionRefusedError),
             closing = (\<lambda>a. None)\<rparr>,
      log = []\<rparr>"

text \<open>Nothing listens: every attempt is refused.\<close>

definition s_all_down :: pystate where
  "s_all_down =
     \<lparr>heap = [],
      net = \<lparr>connecting = (\<lambda>a t. Raises ConnectionRefusedError), closing = (\<lambda>a. None)\<rparr>,
      log = []\<rparr>"

text \<open>
  All three services listen; one dictionary exists already and a socket was used before.
\<close>

definition s_all_up :: pystate where
  "s_all_up =
     \<lparr>heap = [[(''backend'', ''DOWN'')]],
      net = \<lparr>connecting = (\<lambda>a t. Established), closing = (\<lambda>a. None)\<rparr>,
      log = [Connect (''localhost'', 80) 1]\<rparr>"

text \<open>
  All three services listen, and closing the connection to the backend raises an
  operating-system error.
\<close>

definition s_backend_close_fails :: pystate where
  "s_backend_close_fails =
     \<lparr>heap = [],
      net = \<lparr>connecting = (\<lambda>a t. Established),
             closing = (\<lambda>a. if a = (''localhost'', 3001) then Some OSError else None)\<rparr>,
      log = []\<rparr>"

section \<open>Properties\<close>

subsection \<open>The loop body\<close>

lemma except_clause_iff: "except_clause e \<longleftrightarrow> transport_error e"
  by (cases e) (simp_all add: except_clause_def)

lemma dict_setitem_twice: "dict_setitem (dict_setitem d k v) k w = dict_setitem d k w"
  by (induction d) auto

lemmas loop_body_defs =
  loop_body_def except_handler_def create_connection_def sock_close_def setitem_def

lemma loop_body_frame:
  "loop_body st n a s = (x, s') \<Longrightarrow>
   net s' = net s \<and> length (heap s') = length (heap s) \<and> (\<forall>i. i \<noteq> st \<longrightarrow> heap s' ! i = heap s ! i)"
  by (auto simp: loop_body_defs split: conn_outcome.splits option.splits if_splits)

lemma loop_body_log:
  "loop_body st n a s = (x, s') \<Longrightarrow> log s' = log s @ probe_events (net s) a"
  by (auto simp: loop_body_defs probe_events_def split: conn_outcome.splits option.splits if_splits)

lemma loop_body_result:
  "loop_body st n a s = (x, s') \<Longrightarrow>
   x = (case probe_verdict (net s) a of Escapes e \<Rightarrow> Some e | _ \<Rightarrow> None)"
  by (auto simp: loop_body_defs probe_verdict_def except_clause_iff
      split: conn_outcome.splits option.splits if_splits)

lemma loop_body_heap:
  "loop_body st n a s = (None, s') \<Longrightarrow> st < length (heap s) \<Longrightarrow>
   heap s' ! st = dict_setitem (heap s ! st) n (status_of (probe_verdict (net s) a))"
  by (auto simp: loop_body_defs probe_verdict_def status_of_def except_clause_iff dict_setitem_twice
      split: conn_outcome.splits option.splits if_splits)

lemma escapes_not_transport: "probe_verdict nt a = Escapes e \<Longrightarrow> \<not> transport_error e"
  by (auto simp: probe_verdict_def split: conn_outcome.splits option.splits if_splits)

subsection \<open>The loop\<close>

lemma for_loop_frame:
  "for_loop st items s = (x, s') \<Longrightarrow>
   net s' = net s \<and> length (heap s') = length (heap s) \<and> (\<forall>i. i \<noteq> st \<longrightarrow> heap s' ! i = heap s ! i)"
proof (induction items arbitrary: s)
  case Nil
  then show ?case by simp
next
  case (Cons y items)
  obtain n a where y: "y = (n, a)" by (cases y)
  obtain z s1 where b: "loop_body st n a s = (z, s1)" by (cases "loop_body st n a s")
  note f1 = loop_body_frame [OF b]
  show ?case
  proof (cases z)
    case None
    with Cons.prems b y have "for_loop st items s1 = (x, s')" by simp
    from Cons.IH [OF this] f1 show ?thesis by simp
  next
    case (Some e)
    with Cons.prems b y have "s' = s1" by simp
    with f1 show ?thesis by simp
  qed
qed

lemma for_loop_log: "log (snd (for_loop st items s)) = log s @ loop_events (net s) items"
proof (induction items arbitrary: s)
  case Nil
  then show ?case by simp
next
  case (Cons y items)
  obtain n a where y: "y = (n, a)" by (cases y)
  obtain z s1 where b: "loop_body st n a s = (z, s1)" by (cases "loop_body st n a s")
  note l = loop_body_log [OF b]
  note r = loop_body_result [OF b]
  from loop_body_frame [OF b] have n: "net s1 = net s" by simp
  show ?case
  proof (cases "probe_verdict (net s) a")
    case Up
    with r have "z = None" by simp
    with b Up l n Cons.IH [of s1] show ?thesis by (simp add: y)
  next
    case Down
    with r have "z = None" by simp
    with b Down l n Cons.IH [of s1] show ?thesis by (simp add: y)
  next
    case (Escapes e)
    with r have "z = Some e" by simp
    with b Escapes l show ?thesis by (simp add: y)
  qed
qed

lemma for_loop_outcome:
  "st < length (heap s) \<Longrightarrow>
   (case for_loop st items s of (None, s') \<Rightarrow> Inr (heap s' ! st) | (Some e, s') \<Rightarrow> Inl e) =
     loop_outcome (net s) items (heap s ! st)"
proof (induction items arbitrary: s)
  case Nil
  then show ?case by simp
next
  case (Cons y items)
  obtain n a where y: "y = (n, a)" by (cases y)
  obtain z s1 where b: "loop_body st n a s = (z, s1)" by (cases "loop_body st n a s")
  note r = loop_body_result [OF b]
  from loop_body_frame [OF b] Cons.prems
  have n: "net s1 = net s" and v: "st < length (heap s1)" by simp_all
  show ?case
  proof (cases "probe_verdict (net s) a")
    case Up
    with r have z: "z = None" by simp
    from loop_body_heap [OF b [unfolded z] Cons.prems] Up
    have "heap s1 ! st = dict_setitem (heap s ! st) n (status_of Up)" by simp
    with b z Up n Cons.IH [OF v] show ?thesis by (simp add: y)
  next
    case Down
    with r have z: "z = None" by simp
    from loop_body_heap [OF b [unfolded z] Cons.prems] Down
    have "heap s1 ! st = dict_setitem (heap s ! st) n (status_of Down)" by simp
    with b z Down n Cons.IH [OF v] show ?thesis by (simp add: y)
  next
    case (Escapes e)
    with r have "z = Some e" by simp
    with b Escapes show ?thesis by (simp add: y)
  qed
qed

subsection \<open>The loop as a function of the network\<close>

lemma loop_outcome_completes:
  "\<forall>(n, a) \<in> set items. completes (probe_verdict nt a) \<Longrightarrow>
   loop_outcome nt items d =
     Inr (foldl (\<lambda>d (n, a). dict_setitem d n (status_of (probe_verdict nt a))) d items)"
proof (induction items arbitrary: d)
  case Nil
  then show ?case by simp
next
  case (Cons y items)
  obtain n a where y: "y = (n, a)" by (cases y)
  from Cons.prems y have c: "completes (probe_verdict nt a)"
    and r: "\<forall>(n, a) \<in> set items. completes (probe_verdict nt a)" by simp_all
  from c Cons.IH [OF r] show ?case
    by (cases "probe_verdict nt a") (simp_all add: y)
qed

lemma loop_outcome_Inl:
  "loop_outcome nt items d = Inl e \<Longrightarrow> \<exists>(n, a) \<in> set items. probe_verdict nt a = Escapes e"
proof (induction items arbitrary: d)
  case Nil
  then show ?case by simp
next
  case (Cons y items)
  obtain n a where y: "y = (n, a)" by (cases y)
  from Cons show ?case
    by (cases "probe_verdict nt a") (auto simp: y)
qed

lemma loop_outcome_Inr:
  "loop_outcome nt items d = Inr d' \<Longrightarrow> \<forall>(n, a) \<in> set items. completes (probe_verdict nt a)"
proof (induction items arbitrary: d)
  case Nil
  then show ?case by simp
next
  case (Cons y items)
  obtain n a where y: "y = (n, a)" by (cases y)
  from Cons show ?case
    by (cases "probe_verdict nt a") (auto simp: y)
qed

lemma connects_append: "connects (xs @ ys) = connects xs @ connects ys"
  by (induction xs rule: connects.induct) simp_all


lemma connects_probe_events: "connects (probe_events nt a) = [a]"
  by (simp add: probe_events_def split: conn_outcome.splits)


lemma Connect_probe_events: "Connect b t \<in> set (probe_events nt a) \<Longrightarrow> b = a \<and> t = 1"
  by (auto simp: probe_events_def split: conn_outcome.splits)

lemma connects_loop_events:
  "\<exists>k. connects (loop_events nt items) = take k (map snd items)"
proof (induction items)
  case Nil
  then show ?case by simp
next
  case (Cons y items)
  obtain n a where y: "y = (n, a)" by (cases y)
  show ?case
  proof (cases "completes (probe_verdict nt a)")
    case True
    from Cons.IH obtain k where "connects (loop_events nt items) = take k (map snd items)"
      by blast
    with True have "connects (loop_events nt (y # items)) = take (Suc k) (map snd (y # items))"
      by (simp add: y connects_append connects_probe_events)
    then show ?thesis by blast
  next
    case False
    then have "connects (loop_events nt (y # items)) = take (Suc 0) (map snd (y # items))"
      by (simp add: y connects_probe_events)
    then show ?thesis by blast
  qed
qed

lemma connects_loop_events_completes:
  "\<forall>(n, a) \<in> set items. completes (probe_verdict nt a) \<Longrightarrow>
   connects (loop_events nt items) = map snd items"
  by (induction items) (auto simp: connects_append connects_probe_events)

lemma Connect_loop_events:
  "Connect b t \<in> set (loop_events nt items) \<Longrightarrow> b \<in> snd ` set items \<and> t = 1"
proof (induction items)
  case Nil
  then show ?case by simp
next
  case (Cons y items)
  obtain n a where y: "y = (n, a)" by (cases y)
  from Cons.prems y have
    "Connect b t \<in> set (probe_events nt a) \<or> Connect b t \<in> set (loop_events nt items)"
    by (auto split: if_splits)
  then show ?case
  proof
    assume "Connect b t \<in> set (probe_events nt a)"
    from Connect_probe_events [OF this] show ?thesis by (simp add: y)
  next
    assume "Connect b t \<in> set (loop_events nt items)"
    from Cons.IH [OF this] show ?thesis by auto
  qed
qed


lemma loop_events_close:
  "loop_events nt items = pre @ Connect a t # post \<Longrightarrow> connecting nt a 1 = Established \<Longrightarrow>
   \<exists>post'. post = Close a # post'"
proof (induction items arbitrary: pre)
  case Nil
  then show ?case by simp
next
  case (Cons y items)
  obtain n b where y: "y = (n, b)" by (cases y)
  define rest where "rest = (if completes (probe_verdict nt b) then loop_events nt items else [])"
  have ih: "\<exists>post'. post = Close a # post'" if "rest = pre' @ Connect a t # post" for pre'
  proof (cases "completes (probe_verdict nt b)")
    case True
    with that have "loop_events nt items = pre' @ Connect a t # post" by (simp add: rest_def)
    from Cons.IH [OF this Cons.prems(2)] show ?thesis .
  next
    case False
    with that show ?thesis by (simp add: rest_def)
  qed
  show ?case
  proof (cases "connecting nt b 1")
    case Established
    with Cons.prems(1) y have eq: "Connect b 1 # Close b # rest = pre @ Connect a t # post"
      by (simp add: probe_events_def rest_def)
    show ?thesis
    proof (cases pre)
      case Nil
      with eq show ?thesis by auto
    next
      case (Cons p pre1)
      note c1 = this
      show ?thesis
      proof (cases pre1)
        case Nil
        with eq c1 show ?thesis by simp
      next
        case (Cons q pre2)
        with eq c1 have "rest = pre2 @ Connect a t # post" by simp
        from ih [OF this] show ?thesis .
      qed
    qed
  next
    case (Raises e)
    with Cons.prems(1) y have eq: "Connect b 1 # rest = pre @ Connect a t # post"
      by (simp add: probe_events_def rest_def)
    show ?thesis
    proof (cases pre)
      case Nil
      with eq Raises Cons.prems(2) show ?thesis by simp
    next
      case (Cons p pre1)
      with eq have "rest = pre1 @ Connect a t # post" by simp
      from ih [OF this] show ?thesis .
    qed
  qed
qed

lemma loop_events_established:
  assumes "(n, a) \<in> set items" and "connecting nt a 1 = Established"
    and "\<forall>(n, a) \<in> set items. completes (probe_verdict nt a)"
  shows "\<exists>pre post. loop_events nt items = pre @ Connect a 1 # Close a # post"
  using assms(1,3)
proof (induction items)
  case Nil
  then show ?case by simp
next
  case (Cons y items)
  obtain m b where y: "y = (m, b)" by (cases y)
  from Cons.prems(2) y have cb: "completes (probe_verdict nt b)" by simp
  show ?case
  proof (cases "y = (n, a)")
    case True
    with assms(2) cb y have "loop_events nt (y # items) =
        [] @ Connect a 1 # Close a # loop_events nt items"
      by (simp add: probe_events_def)
    then show ?thesis by blast
  next
    case False
    with Cons.prems have "(n, a) \<in> set items"
      and "\<forall>(n, a) \<in> set items. completes (probe_verdict nt a)" by simp_all
    from Cons.IH [OF this] obtain pre post where
      "loop_events nt items = pre @ Connect a 1 # Close a # post"
      by blast
    with cb have "loop_events nt (y # items) =
        (probe_events nt b @ pre) @ Connect a 1 # Close a # post"
      by (simp add: y)
    then show ?thesis by blast
  qed
qed

subsection \<open>The call\<close>

lemma check_server_status_log:
  "log (snd (check_server_status s)) = log s @ loop_events (net s) servers"
proof -
  obtain x s2 where f: "for_loop (length (heap s)) servers (s\<lparr>heap := heap s @ [[]]\<rparr>) = (x, s2)"
    by (cases "for_loop (length (heap s)) servers (s\<lparr>heap := heap s @ [[]]\<rparr>)")
  have "log s2 = log s @ loop_events (net s) servers"
    using for_loop_log [of "length (heap s)" servers "s\<lparr>heap := heap s @ [[]]\<rparr>"] f by simp
  with f show ?thesis
    by (cases x) (simp_all add: check_server_status_def new_dict_def)
qed

lemma check_server_status_outcome:
  "call_outcome (check_server_status s) = loop_outcome (net s) servers []"
proof -
  let ?s1 = "s\<lparr>heap := heap s @ [[]]\<rparr>"
  have "length (heap s) < length (heap ?s1)" by simp
  from for_loop_outcome [OF this, of servers] show ?thesis
    by (simp add: call_outcome_def check_server_status_def new_dict_def
        split: prod.splits option.splits)
qed

lemma call_outcome_Inr: "call_outcome res = Inr d \<longleftrightarrow> returned_report res = Some d"
  by (auto simp: call_outcome_def returned_report_def split: prod.splits sum.splits)

lemma call_outcome_Inl: "call_outcome (res, s) = Inl e \<longleftrightarrow> res = Inl e"
  by (auto simp: call_outcome_def split: sum.splits)

lemma returned_report_call_outcome:
  "returned_report res = (case call_outcome res of Inl e \<Rightarrow> None | Inr d \<Rightarrow> Some d)"
  by (auto simp: call_outcome_def returned_report_def split: prod.splits sum.splits)

lemma report_servers:
  "foldl (\<lambda>d (n, a). dict_setitem d n (f a)) [] servers =
     [(''frontend'', f (''localhost'', 3002)), (''backend'', f (''localhost'', 3001)),
      (''redis'', f (''localhost'', 6379))]"
  by (simp add: servers_def)

lemma check_server_status_report:
  assumes "every_probe_completes s"
  shows "returned_report (check_server_status s) =
     Some [(''frontend'', status_of (probe_verdict (net s) (''localhost'', 3002))),
           (''backend'', status_of (probe_verdict (net s) (''localhost'', 3001))),
           (''redis'', status_of (probe_verdict (net s) (''localhost'', 6379)))]"
proof -
  from assms have "\<forall>(n, a) \<in> set servers. completes (probe_verdict (net s) a)"
    by (simp add: every_probe_completes_def)
  from loop_outcome_completes [OF this, of "[]"]
  have "call_outcome (check_server_status s) =
      Inr (foldl (\<lambda>d (n, a). dict_setitem d n (status_of (probe_verdict (net s) a))) [] servers)"
    by (simp add: check_server_status_outcome)
  then show ?thesis
    by (simp add: call_outcome_Inr report_servers)
qed

lemma check_server_status_completes:
  assumes "every_probe_completes s"
  shows "\<exists>r s'. check_server_status s = (Inr r, s')"
proof -
  obtain res s' where p: "check_server_status s = (res, s')"
    by (cases "check_server_status s")
  from check_server_status_report [OF assms] p obtain r where "res = Inr r"
    by (cases res) (simp_all add: returned_report_def)
  with p show ?thesis by blast
qed

lemma check_server_status_raises:
  assumes "check_server_status s = (Inl e, s')"
  shows "\<exists>(n, a) \<in> set servers. probe_verdict (net s) a = Escapes e"
proof -
  from assms have "call_outcome (check_server_status s) = Inl e"
    by (simp add: call_outcome_def)
  then have "loop_outcome (net s) servers [] = Inl e"
    by (simp add: check_server_status_outcome)
  then show ?thesis by (rule loop_outcome_Inl)
qed

lemma check_server_status_returns:
  assumes "check_server_status s = (Inr r, s')"
  shows "every_probe_completes s"
proof -
  from assms have "call_outcome (check_server_status s) = Inr (heap s' ! r)"
    by (simp add: call_outcome_def)
  then have "loop_outcome (net s) servers [] = Inr (heap s' ! r)"
    by (simp add: check_server_status_outcome)
  from loop_outcome_Inr [OF this] show ?thesis
    by (simp add: every_probe_completes_def)
qed

lemma check_server_status_frame:
  assumes "check_server_status s = (res, s')"
  shows "net s' = net s \<and> length (heap s') = Suc (length (heap s)) \<and>
         (\<forall>i < length (heap s). heap s' ! i = heap s ! i) \<and>
         (\<forall>r. res = Inr r \<longrightarrow> r = length (heap s))"
proof -
  let ?s1 = "s\<lparr>heap := heap s @ [[]]\<rparr>"
  obtain x s2 where f: "for_loop (length (heap s)) servers ?s1 = (x, s2)"
    by (cases "for_loop (length (heap s)) servers ?s1")
  from assms f have r: "s' = s2 \<and> (\<forall>r. res = Inr r \<longrightarrow> r = length (heap s))"
    by (cases x) (auto simp: check_server_status_def new_dict_def)
  from for_loop_frame [OF f] r show ?thesis
    by (auto simp: nth_append)
qed

lemma every_probe_completes_net:
  "net t = net s \<Longrightarrow> every_probe_completes t = every_probe_completes s"
  by (simp add: every_probe_completes_def)

lemma returned_report_net:
  assumes "net t = net s"
  shows "returned_report (check_server_status t) = returned_report (check_server_status s)"
  by (simp only: returned_report_call_outcome check_server_status_outcome assms)

lemma s_backend_up_completes: "every_probe_completes s_backend_up"
  by (simp add: every_probe_completes_def s_backend_up_def servers_def probe_verdict_def)

lemma s_all_down_completes: "every_probe_completes s_all_down"
  by (simp add: every_probe_completes_def s_all_down_def servers_def probe_verdict_def)

lemma s_all_up_completes: "every_probe_completes s_all_up"
  by (simp add: every_probe_completes_def s_all_up_def servers_def probe_verdict_def)

lemma s_backend_close_fails_completes: "every_probe_completes s_backend_close_fails"
  by (simp add: every_probe_completes_def s_backend_close_fails_def servers_def probe_verdict_def)

text \<open>The third scenario of the specification: only the backend listens.\<close>

lemma check_server_status_backend_up:
  "returned_report (check_server_status s_backend_up) =
     Some [(''frontend'', ''DOWN''), (''backend'', ''UP''), (''redis'', ''DOWN'')]"
  unfolding check_server_status_report [OF s_backend_up_completes]
  by (simp add: s_backend_up_def probe_verdict_def status_of_def)

subsection \<open>Concurrent calls\<close>

lemma frame_step_effect:
  assumes "frame_step f s = (f', s')" and "\<forall>r. frame_ref f = Some r \<longrightarrow> r < length (heap s)"
  shows "net s' = net s \<and> length (heap s) \<le> length (heap s') \<and>
         (\<forall>r. frame_ref f' = Some r \<longrightarrow> r < length (heap s')) \<and>
         (\<forall>r. frame_ref f' = Some r \<longrightarrow> frame_ref f = Some r \<or> r = length (heap s)) \<and>
         (\<forall>i < length (heap s). frame_ref f \<noteq> Some i \<longrightarrow> heap s' ! i = heap s ! i) \<and>
         frame_outcome (net s') (heap s') f' = frame_outcome (net s) (heap s) f"
proof (cases f)
  case Entered
  with assms show ?thesis
    by (auto simp: new_dict_def nth_append)
next
  case (Looping st items)
  show ?thesis
  proof (cases items)
    case Nil
    with Looping assms show ?thesis by auto
  next
    case (Cons y items')
    obtain n a where y: "y = (n, a)" by (cases y)
    obtain x s1 where b: "loop_body st n a s = (x, s1)" by (cases "loop_body st n a s")
    note fr = loop_body_frame [OF b]
    note r = loop_body_result [OF b]
    from assms Looping have v: "st < length (heap s)" by simp
    show ?thesis
    proof (cases x)
      case None
      with assms(1) Looping Cons y b have e: "f' = Looping st items'" "s' = s1" by simp_all
      from r None have c: "probe_verdict (net s) a = Up \<or> probe_verdict (net s) a = Down"
        by (cases "probe_verdict (net s) a") simp_all
      from loop_body_heap [OF b [unfolded None] v]
      have h: "heap s1 ! st = dict_setitem (heap s ! st) n (status_of (probe_verdict (net s) a))" .
      from c h fr v show ?thesis
        by (auto simp: e Looping Cons y)
    next
      case (Some e)
      with assms(1) Looping Cons y b have e: "f' = Raised e" "s' = s1" by simp_all
      from r Some have "probe_verdict (net s) a = Escapes e"
        by (cases "probe_verdict (net s) a") simp_all
      with fr v show ?thesis
        by (auto simp: e Looping Cons y)
    qed
  qed
next
  case (Returned r)
  with assms show ?thesis by auto
next
  case (Raised e)
  with assms show ?thesis by auto
qed

lemma frame_outcome_cong:
  "(\<forall>r. frame_ref f = Some r \<longrightarrow> h' ! r = h ! r) \<Longrightarrow> frame_outcome nt h' f = frame_outcome nt h f"
  by (cases f) simp_all

lemma interleave_outcomes:
  assumes "interleave sched f1 f2 s = (g1, g2, s')" and "frames_apart f1 f2 (heap s)"
  shows "net s' = net s \<and> length (heap s) \<le> length (heap s') \<and> frames_apart g1 g2 (heap s') \<and>
         (\<forall>i < length (heap s). frame_ref f1 \<noteq> Some i \<longrightarrow> frame_ref f2 \<noteq> Some i \<longrightarrow>
            heap s' ! i = heap s ! i) \<and>
         frame_outcome (net s') (heap s') g1 = frame_outcome (net s) (heap s) f1 \<and>
         frame_outcome (net s') (heap s') g2 = frame_outcome (net s) (heap s) f2"
  using assms
proof (induction sched arbitrary: f1 f2 s)
  case Nil
  then show ?case by simp
next
  case (Cons b bs)
  show ?case
  proof (cases b)
    case True
    obtain f1' s1 where st: "frame_step f1 s = (f1', s1)" by (cases "frame_step f1 s")
    from Cons.prems(2) have v: "\<forall>r. frame_ref f1 = Some r \<longrightarrow> r < length (heap s)"
      by (simp add: frames_apart_def)
    note e = frame_step_effect [OF st v]
    from Cons.prems(1) True st have run: "interleave bs f1' f2 s1 = (g1, g2, s')" by simp
    have ap: "frames_apart f1' f2 (heap s1)"
      using e Cons.prems(2) unfolding frames_apart_def
      by (metis less_le_trans nat_neq_iff)
    note ih = Cons.IH [OF run ap]
    have o2: "frame_outcome (net s1) (heap s1) f2 = frame_outcome (net s) (heap s) f2"
    proof -
      have "\<forall>r. frame_ref f2 = Some r \<longrightarrow> heap s1 ! r = heap s ! r"
        using e Cons.prems(2) unfolding frames_apart_def by metis
      from frame_outcome_cong [OF this] e show ?thesis by simp
    qed
    have pres: "\<forall>i < length (heap s). frame_ref f1 \<noteq> Some i \<longrightarrow> frame_ref f2 \<noteq> Some i \<longrightarrow>
            heap s' ! i = heap s ! i"
    proof (intro allI impI)
      fix i assume i: "i < length (heap s)" "frame_ref f1 \<noteq> Some i" "frame_ref f2 \<noteq> Some i"
      from e i have a: "heap s1 ! i = heap s ! i" by simp
      from e i have "frame_ref f1' \<noteq> Some i" by auto
      moreover from e i have "i < length (heap s1)" by simp
      ultimately have "heap s' ! i = heap s1 ! i" using ih i(3) by simp
      with a show "heap s' ! i = heap s ! i" by simp
    qed
    from ih have "frame_outcome (net s') (heap s') g1 = frame_outcome (net s1) (heap s1) f1'"
      by (elim conjE)
    moreover from e have "frame_outcome (net s1) (heap s1) f1' = frame_outcome (net s) (heap s) f1"
      by (elim conjE)
    ultimately have g1: "frame_outcome (net s') (heap s') g1 = frame_outcome (net s) (heap s) f1"
      by (rule trans)
    from ih have "frame_outcome (net s') (heap s') g2 = frame_outcome (net s1) (heap s1) f2"
      by (elim conjE)
    then have g2: "frame_outcome (net s') (heap s') g2 = frame_outcome (net s) (heap s) f2"
      using o2 by (rule trans)
    from ih have "net s' = net s1" by (elim conjE)
    moreover from e have "net s1 = net s" by (elim conjE)
    ultimately have n: "net s' = net s" by (rule trans)
    from e have "length (heap s) \<le> length (heap s1)" by (elim conjE)
    moreover from ih have "length (heap s1) \<le> length (heap s')" by (elim conjE)
    ultimately have l: "length (heap s) \<le> length (heap s')" by (rule le_trans)
    from ih have "frames_apart g1 g2 (heap s')" by (elim conjE)
    with n l pres g1 g2 show ?thesis by (intro conjI)
  next
    case False
    obtain f2' s1 where st: "frame_step f2 s = (f2', s1)" by (cases "frame_step f2 s")
    from Cons.prems(2) have v: "\<forall>r. frame_ref f2 = Some r \<longrightarrow> r < length (heap s)"
      by (simp add: frames_apart_def)
    note e = frame_step_effect [OF st v]
    from Cons.prems(1) False st have run: "interleave bs f1 f2' s1 = (g1, g2, s')" by simp
    have ap: "frames_apart f1 f2' (heap s1)"
      using e Cons.prems(2) unfolding frames_apart_def
      by (metis less_le_trans nat_neq_iff)
    note ih = Cons.IH [OF run ap]
    have o1: "frame_outcome (net s1) (heap s1) f1 = frame_outcome (net s) (heap s) f1"
    proof -
      have "\<forall>r. frame_ref f1 = Some r \<longrightarrow> heap s1 ! r = heap s ! r"
        using e Cons.prems(2) unfolding frames_apart_def by metis
      from frame_outcome_cong [OF this] e show ?thesis by simp
    qed
    have pres: "\<forall>i < length (heap s). frame_ref f1 \<noteq> Some i \<longrightarrow> frame_ref f2 \<noteq> Some i \<longrightarrow>
            heap s' ! i = heap s ! i"
    proof (intro allI impI)
      fix i assume i: "i < length (heap s)" "frame_ref f1 \<noteq> Some i" "frame_ref f2 \<noteq> Some i"
      from e i have a: "heap s1 ! i = heap s ! i" by simp
      from e i have "frame_ref f2' \<noteq> Some i" by auto
      moreover from e i have "i < length (heap s1)" by simp
      ultimately have "heap s' ! i = heap s1 ! i" using ih i(2) by simp
      with a show "heap s' ! i = heap s ! i" by simp
    qed
    from ih have "frame_outcome (net s') (heap s') g2 = frame_outcome (net s1) (heap s1) f2'"
      by (elim conjE)
    moreover from e have "frame_outcome (net s1) (heap s1) f2' = frame_outcome (net s) (heap s) f2"
      by (elim conjE)
    ultimately have g2: "frame_outcome (net s') (heap s') g2 = frame_outcome (net s) (heap s) f2"
      by (rule trans)
    from ih have "frame_outcome (net s') (heap s') g1 = frame_outcome (net s1) (heap s1) f1"
      by (elim conjE)
    then have g1: "frame_outcome (net s') (heap s') g1 = frame_outcome (net s) (heap s) f1"
      using o1 by (rule trans)
    from ih have "net s' = net s1" by (elim conjE)
    moreover from e have "net s1 = net s" by (elim conjE)
    ultimately have n: "net s' = net s" by (rule trans)
    from e have "length (heap s) \<le> length (heap s1)" by (elim conjE)
    moreover from ih have "length (heap s1) \<le> length (heap s')" by (elim conjE)
    ultimately have l: "length (heap s) \<le> length (heap s')" by (rule le_trans)
    from ih have "frames_apart g1 g2 (heap s')" by (elim conjE)
    with n l pres g1 g2 show ?thesis by (intro conjI)
  qed
qed

lemma interleave_stutter_Returned:
  "interleave (replicate k True) (Returned r) f2 s = (Returned r, f2, s)"
  by (induction k) simp_all

lemma interleave_stutter_Raised:
  "interleave (replicate k True) (Raised e) f2 s = (Raised e, f2, s)"
  by (induction k) simp_all

lemma interleave_alone_loop:
  "interleave (replicate (Suc (length items)) True) (Looping st items) f2 s =
     (case for_loop st items s of
        (None, s') \<Rightarrow> (Returned st, f2, s')
      | (Some e, s') \<Rightarrow> (Raised e, f2, s'))"
proof (induction items arbitrary: s)
  case Nil
  then show ?case by simp
next
  case (Cons y items)
  obtain n a where y: "y = (n, a)" by (cases y)
  obtain x s1 where b: "loop_body st n a s = (x, s1)" by (cases "loop_body st n a s")
  show ?case
  proof (cases x)
    case None
    with b Cons.IH [of s1] show ?thesis by (simp add: y)
  next
    case (Some e)
    with b interleave_stutter_Raised [of "length items" e f2 s1] show ?thesis by (simp add: y)
  qed
qed

lemma interleave_alone:
  "interleave (replicate 5 True) Entered f2 s =
     (case check_server_status s of
        (Inr r, s') \<Rightarrow> (Returned r, f2, s')
      | (Inl e, s') \<Rightarrow> (Raised e, f2, s'))"
proof -
  let ?s1 = "s\<lparr>heap := heap s @ [[]]\<rparr>"
  have l: "Suc (length servers) = 4" by (simp add: servers_def)
  have r: "replicate 5 True = True # replicate (Suc (length servers)) True"
    unfolding l by (simp add: numeral_eq_Suc)
  have "interleave (replicate 5 True) Entered f2 s =
      interleave (replicate (Suc (length servers)) True) (Looping (length (heap s)) servers) f2 ?s1"
    unfolding r by (simp add: new_dict_def del: replicate_Suc)
  also have "\<dots> = (case for_loop (length (heap s)) servers ?s1 of
        (None, s') \<Rightarrow> (Returned (length (heap s)), f2, s')
      | (Some e, s') \<Rightarrow> (Raised e, f2, s'))"
    by (rule interleave_alone_loop)
  also have "\<dots> = (case check_server_status s of
        (Inr r, s') \<Rightarrow> (Returned r, f2, s')
      | (Inl e, s') \<Rightarrow> (Raised e, f2, s'))"
    by (simp add: check_server_status_def new_dict_def split: prod.splits option.splits)
  finally show ?thesis .
qed


lemma frame_step_left: "frame_step f s = (f', s') \<Longrightarrow> frame_left f' \<le> frame_left f - 1"
proof (cases f)
  case Entered
  then show "frame_step f s = (f', s') \<Longrightarrow> frame_left f' \<le> frame_left f - 1"
    by (auto simp: new_dict_def)
next
  case (Looping st items)
  then show "frame_step f s = (f', s') \<Longrightarrow> frame_left f' \<le> frame_left f - 1"
    by (cases items) (auto split: prod.splits option.splits)
next
  case (Returned r)
  then show "frame_step f s = (f', s') \<Longrightarrow> frame_left f' \<le> frame_left f - 1" by auto
next
  case (Raised e)
  then show "frame_step f s = (f', s') \<Longrightarrow> frame_left f' \<le> frame_left f - 1" by auto
qed

lemma interleave_left:
  "interleave sched f1 f2 s = (g1, g2, s') \<Longrightarrow>
   frame_left g1 \<le> frame_left f1 - length (filter id sched) \<and>
   frame_left g2 \<le> frame_left f2 - length (filter Not sched)"
proof (induction sched arbitrary: f1 f2 s)
  case Nil
  then show ?case by simp
next
  case (Cons b bs)
  show ?case
  proof (cases b)
    case True
    obtain f1' s1 where st: "frame_step f1 s = (f1', s1)" by (cases "frame_step f1 s")
    with Cons.prems True have "interleave bs f1' f2 s1 = (g1, g2, s')" by simp
    from Cons.IH [OF this] frame_step_left [OF st] True show ?thesis by simp arith
  next
    case False
    obtain f2' s1 where st: "frame_step f2 s = (f2', s1)" by (cases "frame_step f2 s")
    with Cons.prems False have "interleave bs f1 f2' s1 = (g1, g2, s')" by simp
    from Cons.IH [OF this] frame_step_left [OF st] False show ?thesis by simp arith
  qed
qed

lemma frame_left_finished: "frame_left f = 0 \<longleftrightarrow> finished f"
  by (cases f) simp_all

lemma interleave_calls:
  assumes "interleave sched Entered Entered s = (f1, f2, s')"
  shows "net s' = net s \<and> take (length (heap s)) (heap s') = heap s \<and>
         frame_outcome (net s) (heap s') f1 = call_outcome (check_server_status s) \<and>
         frame_outcome (net s) (heap s') f2 = call_outcome (check_server_status s) \<and>
         (\<forall>r. frame_ref f1 = Some r \<longrightarrow> frame_ref f2 \<noteq> Some r)"
proof -
  have ap: "frames_apart Entered Entered (heap s)" by (simp add: frames_apart_def)
  note io = interleave_outcomes [OF assms ap]
  from io have n: "net s' = net s" by (elim conjE)
  from io have l: "length (heap s) \<le> length (heap s')" by (elim conjE)
  from io have "\<forall>i < length (heap s). heap s' ! i = heap s ! i" by simp
  with l have t: "take (length (heap s)) (heap s') = heap s"
    by (simp add: list_eq_iff_nth_eq)
  from io n have o1: "frame_outcome (net s) (heap s') f1 = call_outcome (check_server_status s)"
    by (simp add: check_server_status_outcome)
  from io n have o2: "frame_outcome (net s) (heap s') f2 = call_outcome (check_server_status s)"
    by (simp add: check_server_status_outcome)
  from io have "\<forall>r. frame_ref f1 = Some r \<longrightarrow> frame_ref f2 \<noteq> Some r"
    by (simp add: frames_apart_def)
  with n t o1 o2 show ?thesis by (intro conjI)
qed


subsection \<open>Facts the claims share\<close>

lemma status_of_probe:
  "status_of (probe_verdict nt a) =
     (if connecting nt a 1 = Established \<and> closing nt a = None then ''UP'' else ''DOWN'')"
  by (simp add: probe_verdict_def status_of_def split: conn_outcome.splits option.splits)

lemma status_of_cases: "status_of v = ''UP'' \<or> status_of v = ''DOWN''"
  by (simp add: status_of_def)

lemma servers_cases:
  "(name, a) \<in> set servers \<Longrightarrow>
   (name, a) = (''frontend'', (''localhost'', 3002)) \<or>
   (name, a) = (''backend'', (''localhost'', 3001)) \<or>
   (name, a) = (''redis'', (''localhost'', 6379))"
  by (auto simp: servers_def)

lemma report_lookup:
  assumes "every_probe_completes s" and "(name, a) \<in> set servers"
  shows "\<exists>d. returned_report (check_server_status s) = Some d \<and>
             map_of d name = Some (status_of (probe_verdict (net s) a))"
  using servers_cases [OF assms(2)]
  by (auto simp: check_server_status_report [OF assms(1)])

text \<open>The loop of the code is the loop of the specification's prober at timeout 1, as
  long as no closing fails.\<close>

lemma loop_body_spec_probe:
  "connecting (net s) (h, p) 1 = Established \<longrightarrow> closing (net s) (h, p) = None \<Longrightarrow>
   loop_body st n (h, p) s = spec_probe 1 st (n, h, p) s"
  by (cases "connecting (net s) (h, p) 1")
     (simp_all add: loop_body_defs spec_probe_def except_clause_iff)

lemma for_loop_spec_probe_all:
  "\<forall>(n, a) \<in> set items. connecting (net s) a 1 = Established \<longrightarrow> closing (net s) a = None \<Longrightarrow>
   for_loop st items s = spec_probe_all 1 st (map (\<lambda>(n, h, p). (n, h, p)) items) s"
proof (induction items arbitrary: s)
  case Nil
  then show ?case by simp
next
  case (Cons y items)
  obtain n h p where y: "y = (n, h, p)" by (cases y)
  obtain z s1 where b: "loop_body st n (h, p) s = (z, s1)" by (cases "loop_body st n (h, p) s")
  from Cons.prems y have "connecting (net s) (h, p) 1 = Established \<longrightarrow> closing (net s) (h, p) = None"
    by simp
  from loop_body_spec_probe [OF this] b have sp: "spec_probe 1 st (n, h, p) s = (z, s1)"
    by simp
  from loop_body_frame [OF b] have "net s1 = net s" by simp
  with Cons.prems have
    "\<forall>(n, a) \<in> set items. connecting (net s1) a 1 = Established \<longrightarrow> closing (net s1) a = None"
    by simp
  from Cons.IH [OF this] b sp show ?case
    by (cases z) (simp_all add: y)
qed

section \<open>The claims\<close>

text \<open>
  C1. Whenever every probe succeeds or fails, the call returns a mapping with exactly one
  entry per target of \<open>servers\<close>, keyed by the target's name: the keys are the three
  names frontend, backend and redis, none missing, none extra, none twice.
\<close>

theorem report_one_entry_per_target:
  assumes "every_probe_completes s"
  shows "\<exists>d. returned_report (check_server_status s) = Some d \<and>
             fst ` set d = fst ` set servers \<and> distinct (map fst d) \<and>
             length d = length servers \<and>
             fst ` set d = {''frontend'', ''backend'', ''redis''}"
  by (simp add: check_server_status_report [OF assms] servers_def)

theorem report_one_entry_per_target_witness:
  "every_probe_completes s_backend_up \<and>
   (\<exists>d. returned_report (check_server_status s_backend_up) = Some d \<and>
        fst ` set d = fst ` set servers \<and> distinct (map fst d) \<and>
        length d = length servers \<and>
        fst ` set d = {''frontend'', ''backend'', ''redis''})"
  using report_one_entry_per_target [OF s_backend_up_completes] s_backend_up_completes
  by simp

text \<open>
  C2. Every value of the returned mapping is the string UP or the string DOWN, whatever
  the outcomes of the probes.
\<close>

theorem report_values_up_or_down:
  assumes "every_probe_completes s"
  shows "\<exists>d. returned_report (check_server_status s) = Some d \<and>
             (\<forall>(k, v) \<in> set d. v = ''UP'' \<or> v = ''DOWN'')"
  by (simp add: check_server_status_report [OF assms] status_of_cases)

theorem report_values_up_or_down_witness:
  "every_probe_completes s_backend_close_fails \<and>
   (\<exists>d. returned_report (check_server_status s_backend_close_fails) = Some d \<and>
        (\<forall>(k, v) \<in> set d. v = ''UP'' \<or> v = ''DOWN''))"
  using report_values_up_or_down [OF s_backend_close_fails_completes]
    s_backend_close_fails_completes
  by simp

text \<open>
  C3. The call never raises a transport-level failure to its caller: an exception that
  leaves the call is no timeout, no refused connection, no failed name resolution and no
  other operating-system error. When every probe succeeds or fails at transport level,
  the call returns, and every target whose connection attempt failed, or whose
  connection failed to close, has status DOWN.
\<close>

theorem transport_failures_become_down:
  "(\<forall>e s'. check_server_status s = (Inl e, s') \<longrightarrow> \<not> transport_error e) \<and>
   (every_probe_completes s \<longrightarrow>
      (\<exists>d. returned_report (check_server_status s) = Some d \<and>
           (\<forall>(name, a) \<in> set servers. \<forall>e. connecting (net s) a 1 = Raises e \<longrightarrow>
              map_of d name = Some ''DOWN'') \<and>
           (\<forall>(name, a) \<in> set servers. \<forall>e. closing (net s) a = Some e \<longrightarrow>
              map_of d name = Some ''DOWN'')))"
proof (intro conjI allI impI)
  fix e s'
  assume "check_server_status s = (Inl e, s')"
  from check_server_status_raises [OF this] escapes_not_transport
  show "\<not> transport_error e" by blast
next
  assume a: "every_probe_completes s"
  show "\<exists>d. returned_report (check_server_status s) = Some d \<and>
           (\<forall>(name, a) \<in> set servers. \<forall>e. connecting (net s) a 1 = Raises e \<longrightarrow>
              map_of d name = Some ''DOWN'') \<and>
           (\<forall>(name, a) \<in> set servers. \<forall>e. closing (net s) a = Some e \<longrightarrow>
              map_of d name = Some ''DOWN'')"
    by (auto simp: check_server_status_report [OF a] servers_def status_of_probe)
qed

theorem transport_failures_become_down_witness:
  "every_probe_completes s_backend_up \<and>
   connecting (net s_backend_up) (''localhost'', 3002) 1 = Raises ConnectionRefusedError \<and>
   (\<exists>d. returned_report (check_server_status s_backend_up) = Some d \<and>
        map_of d ''frontend'' = Some ''DOWN'')"
proof -
  have n: "connecting (net s_backend_up) (''localhost'', 3002) 1 = Raises ConnectionRefusedError"
    by (simp add: s_backend_up_def)
  from transport_failures_become_down [of s_backend_up] s_backend_up_completes
  obtain d where d: "returned_report (check_server_status s_backend_up) = Some d"
    and all: "\<forall>(name, a) \<in> set servers. \<forall>e. connecting (net s_backend_up) a 1 = Raises e \<longrightarrow>
        map_of d name = Some ''DOWN''"
    by blast
  have "(''frontend'', (''localhost'', 3002)) \<in> set servers" by (simp add: servers_def)
  with all n have "map_of d ''frontend'' = Some ''DOWN''" by blast
  with d n s_backend_up_completes show ?thesis by blast
qed

text \<open>
  C4, as amended. A target of \<open>servers\<close> whose connection attempt succeeds and whose
  connection closes without error has status UP in the returned mapping, and the
  connection is closed at once: in the socket operations of the call, every connection
  attempt to its address is followed immediately by the closing of that connection,
  before any attempt on another target.
\<close>

theorem established_and_closed_is_up:
  assumes "(name, a) \<in> set servers" and "connecting (net s) a 1 = Established"
    and "closing (net s) a = None"
  shows "(every_probe_completes s \<longrightarrow>
            (\<exists>d pre post. returned_report (check_server_status s) = Some d \<and>
                 map_of d name = Some ''UP'' \<and>
                 log (snd (check_server_status s)) = log s @ pre @ Connect a 1 # Close a # post)) \<and>
         (\<forall>pre t post. log (snd (check_server_status s)) = log s @ pre @ Connect a t # post \<longrightarrow>
            (\<exists>post'. post = Close a # post'))"
proof (intro conjI allI impI)
  assume c: "every_probe_completes s"
  from report_lookup [OF c assms(1)] assms(2,3)
  obtain d where d: "returned_report (check_server_status s) = Some d"
    and up: "map_of d name = Some ''UP''"
    by (auto simp: status_of_probe)
  from c have "\<forall>(n, a) \<in> set servers. completes (probe_verdict (net s) a)"
    by (simp add: every_probe_completes_def)
  from loop_events_established [OF assms(1,2) this] obtain pre post where
    "loop_events (net s) servers = pre @ Connect a 1 # Close a # post"
    by blast
  then have "log (snd (check_server_status s)) = log s @ pre @ Connect a 1 # Close a # post"
    by (simp add: check_server_status_log)
  with d up
  show "\<exists>d pre post. returned_report (check_server_status s) = Some d \<and>
                 map_of d name = Some ''UP'' \<and>
                 log (snd (check_server_status s)) = log s @ pre @ Connect a 1 # Close a # post"
    by blast
next
  fix pre t post
  assume "log (snd (check_server_status s)) = log s @ pre @ Connect a t # post"
  then have "loop_events (net s) servers = pre @ Connect a t # post"
    by (simp add: check_server_status_log)
  from loop_events_close [OF this assms(2)] show "\<exists>post'. post = Close a # post'" .
qed

theorem established_and_closed_is_up_witness:
  "(''backend'', (''localhost'', 3001)) \<in> set servers \<and>
   connecting (net s_backend_up) (''localhost'', 3001) 1 = Established \<and>
   closing (net s_backend_up) (''localhost'', 3001) = None \<and>
   every_probe_completes s_backend_up \<and>
   (\<exists>d pre post. returned_report (check_server_status s_backend_up) = Some d \<and>
        map_of d ''backend'' = Some ''UP'' \<and>
        log (snd (check_server_status s_backend_up)) =
          log s_backend_up @ pre @ Connect (''localhost'', 3001) 1 # Close (''localhost'', 3001) # post)"
proof -
  have m: "(''backend'', (''localhost'', 3001)) \<in> set servers" by (simp add: servers_def)
  have n: "connecting (net s_backend_up) (''localhost'', 3001) 1 = Established"
    by (simp add: s_backend_up_def)
  have c: "closing (net s_backend_up) (''localhost'', 3001) = None"
    by (simp add: s_backend_up_def)
  from established_and_closed_is_up [OF m n c] s_backend_up_completes m n c
  show ?thesis by blast
qed

text \<open>
  C4 as stated fails: with all three services listening and the closing of the
  connection to the backend raising an operating-system error, the connection attempt
  to the backend succeeds, and the returned mapping has the backend DOWN.
\<close>

theorem established_close_fails_counterexample:
  "(''backend'', (''localhost'', 3001)) \<in> set servers \<and>
   connecting (net s_backend_close_fails) (''localhost'', 3001) 1 = Established \<and>
   returned_report (check_server_status s_backend_close_fails) =
     Some [(''frontend'', ''UP''), (''backend'', ''DOWN''), (''redis'', ''UP'')]"
proof (intro conjI)
  show "(''backend'', (''localhost'', 3001)) \<in> set servers" by (simp add: servers_def)
  show "connecting (net s_backend_close_fails) (''localhost'', 3001) 1 = Established"
    by (simp add: s_backend_close_fails_def)
  show "returned_report (check_server_status s_backend_close_fails) =
     Some [(''frontend'', ''UP''), (''backend'', ''DOWN''), (''redis'', ''UP'')]"
    unfolding check_server_status_report [OF s_backend_close_fails_completes]
    by (simp add: s_backend_close_fails_def status_of_probe)
qed

text \<open>
  C5, as amended. \<open>check_server_status\<close> takes neither targets nor a timeout. Every call
  attempts connections to the three addresses of \<open>servers\<close> only, each with a timeout of
  1 second, and a call that returns reports on exactly the three targets of \<open>servers\<close>.
  As long as no established connection fails to close, a call is the prober of the
  specification run on these three targets with a timeout of 1 second.
\<close>

theorem check_server_status_fixed_targets:
  "(\<exists>evs. log (snd (check_server_status s)) = log s @ evs \<and>
      (\<forall>a t. Connect a t \<in> set evs \<longrightarrow>
         t = 1 \<and> a \<in> {(''localhost'', 3002), (''localhost'', 3001), (''localhost'', 6379)})) \<and>
   (every_probe_completes s \<longrightarrow>
      (\<exists>d. returned_report (check_server_status s) = Some d \<and>
           map fst d = [''frontend'', ''backend'', ''redis''])) \<and>
   ((\<forall>(name, a) \<in> set servers. connecting (net s) a 1 = Established \<longrightarrow> closing (net s) a = None) \<longrightarrow>
      check_server_status s =
        spec_check_status
          [(''frontend'', ''localhost'', 3002), (''backend'', ''localhost'', 3001),
           (''redis'', ''localhost'', 6379)] 1 s)"
proof (intro conjI impI)
  have "\<forall>a t. Connect a t \<in> set (loop_events (net s) servers) \<longrightarrow>
         t = 1 \<and> a \<in> {(''localhost'', 3002), (''localhost'', 3001), (''localhost'', 6379)}"
    using Connect_loop_events [of _ _ "net s" servers] by (auto simp: servers_def)
  with check_server_status_log [of s]
  show "\<exists>evs. log (snd (check_server_status s)) = log s @ evs \<and>
      (\<forall>a t. Connect a t \<in> set evs \<longrightarrow>
         t = 1 \<and> a \<in> {(''localhost'', 3002), (''localhost'', 3001), (''localhost'', 6379)})"
    by blast
next
  assume c: "every_probe_completes s"
  show "\<exists>d. returned_report (check_server_status s) = Some d \<and>
           map fst d = [''frontend'', ''backend'', ''redis'']"
    by (simp add: check_server_status_report [OF c])
next
  assume nc: "\<forall>(name, a) \<in> set servers. connecting (net s) a 1 = Established \<longrightarrow> closing (net s) a = None"
  let ?s1 = "s\<lparr>heap := heap s @ [[]]\<rparr>"
  have m: "map (\<lambda>(n, h, p). (n, h, p)) servers =
     [(''frontend'', ''localhost'', 3002), (''backend'', ''localhost'', 3001),
      (''redis'', ''localhost'', 6379)]"
    by (simp add: servers_def)
  from nc have "\<forall>(n, a) \<in> set servers.
      connecting (net ?s1) a 1 = Established \<longrightarrow> closing (net ?s1) a = None"
    by simp
  from for_loop_spec_probe_all [OF this, of "length (heap s)"]
  have "for_loop (length (heap s)) servers ?s1 =
      spec_probe_all 1 (length (heap s))
        [(''frontend'', ''localhost'', 3002), (''backend'', ''localhost'', 3001),
         (''redis'', ''localhost'', 6379)] ?s1"
    by (simp only: m)
  then show "check_server_status s =
        spec_check_status
          [(''frontend'', ''localhost'', 3002), (''backend'', ''localhost'', 3001),
           (''redis'', ''localhost'', 6379)] 1 s"
    by (simp only: check_server_status_def spec_check_status_def new_dict_def prod.case)
qed

theorem check_server_status_fixed_targets_witness:
  "every_probe_completes s_backend_up \<and>
   (\<exists>d. returned_report (check_server_status s_backend_up) = Some d \<and>
        map fst d = [''frontend'', ''backend'', ''redis'']) \<and>
   check_server_status s_backend_up =
     spec_check_status
       [(''frontend'', ''localhost'', 3002), (''backend'', ''localhost'', 3001),
        (''redis'', ''localhost'', 6379)] 1 s_backend_up"
proof -
  have "\<forall>(name, a) \<in> set servers.
      connecting (net s_backend_up) a 1 = Established \<longrightarrow> closing (net s_backend_up) a = None"
    by (simp add: s_backend_up_def)
  with check_server_status_fixed_targets [of s_backend_up] s_backend_up_completes
  show ?thesis by blast
qed

text \<open>
  C5 as stated fails: with the single target frontend supplied and nothing listening,
  the prober of the specification reports on that target alone, while the code reports
  on its three targets. With a timeout of 5 seconds supplied, the prober of the
  specification connects with that timeout, the code with 1 second.
\<close>

theorem caller_supplied_targets_counterexample:
  "check_server_status s_all_down \<noteq>
     spec_check_status [(''frontend'', ''localhost'', 3002)] 5 s_all_down \<and>
   returned_report (spec_check_status [(''frontend'', ''localhost'', 3002)] 5 s_all_down) =
     Some [(''frontend'', ''DOWN'')] \<and>
   returned_report (check_server_status s_all_down) =
     Some [(''frontend'', ''DOWN''), (''backend'', ''DOWN''), (''redis'', ''DOWN'')] \<and>
   log (snd (spec_check_status [(''frontend'', ''localhost'', 3002)] 5 s_all_down)) =
     [Connect (''localhost'', 3002) 5] \<and>
   log (snd (check_server_status s_all_down)) =
     [Connect (''localhost'', 3002) 1, Connect (''localhost'', 3001) 1,
      Connect (''localhost'', 6379) 1]"
proof (intro conjI)
  show r1: "returned_report (spec_check_status [(''frontend'', ''localhost'', 3002)] 5 s_all_down) =
     Some [(''frontend'', ''DOWN'')]"
    by (simp add: spec_check_status_def spec_probe_def new_dict_def create_connection_def
        setitem_def returned_report_def s_all_down_def)
  show r2: "returned_report (check_server_status s_all_down) =
     Some [(''frontend'', ''DOWN''), (''backend'', ''DOWN''), (''redis'', ''DOWN'')]"
    unfolding check_server_status_report [OF s_all_down_completes]
    by (simp add: s_all_down_def status_of_probe)
  show "check_server_status s_all_down \<noteq>
     spec_check_status [(''frontend'', ''localhost'', 3002)] 5 s_all_down"
  proof
    assume "check_server_status s_all_down =
      spec_check_status [(''frontend'', ''localhost'', 3002)] 5 s_all_down"
    with r1 r2 show False by simp
  qed
  show "log (snd (spec_check_status [(''frontend'', ''localhost'', 3002)] 5 s_all_down)) =
     [Connect (''localhost'', 3002) 5]"
    by (simp add: spec_check_status_def spec_probe_def new_dict_def create_connection_def
        setitem_def s_all_down_def)
  show "log (snd (check_server_status s_all_down)) =
     [Connect (''localhost'', 3002) 1, Connect (''localhost'', 3001) 1,
      Connect (''localhost'', 6379) 1]"
    by (simp add: check_server_status_log servers_def s_all_down_def probe_events_def
        probe_verdict_def)
qed

text \<open>
  C6. The targets are the three triples frontend at localhost:3002, backend at
  localhost:3001 and redis at localhost:6379. Whatever the state of the program, a call
  attempts no connection to any other address, and when every probe completes it attempts
  exactly these three, once each.
\<close>

theorem probed_targets_fixed:
  "servers =
     [(''frontend'', (''localhost'', 3002)), (''backend'', (''localhost'', 3001)),
      (''redis'', (''localhost'', 6379))] \<and>
   (\<exists>evs. log (snd (check_server_status s)) = log s @ evs \<and>
      set (connects evs) \<subseteq> {(''localhost'', 3002), (''localhost'', 3001), (''localhost'', 6379)} \<and>
      (every_probe_completes s \<longrightarrow>
         connects evs = [(''localhost'', 3002), (''localhost'', 3001), (''localhost'', 6379)]))"
proof (intro conjI exI [of _ "loop_events (net s) servers"] impI)
  show "servers =
     [(''frontend'', (''localhost'', 3002)), (''backend'', (''localhost'', 3001)),
      (''redis'', (''localhost'', 6379))]"
    by (simp add: servers_def)
  show "log (snd (check_server_status s)) = log s @ loop_events (net s) servers"
    by (rule check_server_status_log)
  from connects_loop_events [of "net s" servers] obtain k where
    "connects (loop_events (net s) servers) = take k (map snd servers)" by blast
  with set_take_subset [of k "map snd servers"]
  have "set (connects (loop_events (net s) servers)) \<subseteq> set (map snd servers)"
    by (simp only:)
  then show "set (connects (loop_events (net s) servers)) \<subseteq>
     {(''localhost'', 3002), (''localhost'', 3001), (''localhost'', 6379)}"
    by (simp add: servers_def)
next
  assume c: "every_probe_completes s"
  then have "\<forall>(n, a) \<in> set servers. completes (probe_verdict (net s) a)"
    by (simp add: every_probe_completes_def)
  from connects_loop_events_completes [OF this]
  show "connects (loop_events (net s) servers) =
     [(''localhost'', 3002), (''localhost'', 3001), (''localhost'', 6379)]"
    by (simp add: servers_def)
qed

theorem probed_targets_fixed_witness:
  "every_probe_completes s_all_up \<and>
   (\<exists>evs. log (snd (check_server_status s_all_up)) = log s_all_up @ evs \<and>
      connects evs = [(''localhost'', 3002), (''localhost'', 3001), (''localhost'', 6379)])"
  using probed_targets_fixed [of s_all_up] s_all_up_completes by blast



text \<open>
  C8. A call leaves the network and every dictionary that existed before it as they
  were; the mapping it returns is an object that did not exist before. What it returns
  depends on the network alone, not on the dictionaries or the socket operations of
  earlier calls. Of two successive calls, the second returns another object than the
  first, leaves the report of the first untouched, and reports the same as the first. Of
  two concurrent calls, under every schedule, each produces what a call on its own
  produces: the same report, in an object of its own, or the same exception; the
  dictionaries that existed before stay as they were, and a call that gets five turns is
  over.
\<close>

theorem calls_share_no_state:
  assumes "check_server_status s = (res1, s1)" and "check_server_status s1 = (res2, s2)"
    and "interleave sched Entered Entered s = (f1, f2, s')"
  shows "net s1 = net s \<and>
         take (length (heap s)) (heap s1) = heap s \<and>
         (\<forall>r1. res1 = Inr r1 \<longrightarrow> length (heap s) \<le> r1 \<and> r1 < length (heap s1)) \<and>
         (\<forall>t. net t = net s \<longrightarrow>
            returned_report (check_server_status t) = returned_report (res1, s1)) \<and>
         (\<forall>r1 r2. res1 = Inr r1 \<and> res2 = Inr r2 \<longrightarrow> r1 \<noteq> r2 \<and> heap s2 ! r1 = heap s1 ! r1) \<and>
         returned_report (res2, s2) = returned_report (res1, s1) \<and>
         net s' = net s \<and>
         take (length (heap s)) (heap s') = heap s \<and>
         (\<forall>r. f1 = Returned r \<or> f2 = Returned r \<longrightarrow>
            returned_report (res1, s1) = Some (heap s' ! r)) \<and>
         (\<forall>e. f1 = Raised e \<or> f2 = Raised e \<longrightarrow> res1 = Inl e) \<and>
         (\<forall>r1 r2. f1 = Returned r1 \<and> f2 = Returned r2 \<longrightarrow> r1 \<noteq> r2) \<and>
         (5 \<le> length (filter id sched) \<longrightarrow> finished f1) \<and>
         (5 \<le> length (filter Not sched) \<longrightarrow> finished f2)"
proof -
  note fr1 = check_server_status_frame [OF assms(1)]
  note fr2 = check_server_status_frame [OF assms(2)]
  have a: "net s1 = net s" using fr1 by simp
  have b: "take (length (heap s)) (heap s1) = heap s"
    using fr1 by (simp add: list_eq_iff_nth_eq)
  have c: "\<forall>r1. res1 = Inr r1 \<longrightarrow> length (heap s) \<le> r1 \<and> r1 < length (heap s1)"
    using fr1 by simp
  have d: "\<forall>t. net t = net s \<longrightarrow>
            returned_report (check_server_status t) = returned_report (res1, s1)"
    using returned_report_net [of _ s] assms(1) by simp
  have e: "\<forall>r1 r2. res1 = Inr r1 \<and> res2 = Inr r2 \<longrightarrow> r1 \<noteq> r2 \<and> heap s2 ! r1 = heap s1 ! r1"
    using fr1 fr2 by auto
  have f: "returned_report (res2, s2) = returned_report (res1, s1)"
    using returned_report_net [OF a] assms(1,2) by simp
  note ic = interleave_calls [OF assms(3)]
  from ic have n: "net s' = net s" by (elim conjE)
  from ic have t: "take (length (heap s)) (heap s') = heap s" by (elim conjE)
  from ic have o1: "frame_outcome (net s) (heap s') f1 = call_outcome (res1, s1)"
    by (simp add: assms(1))
  from ic have o2: "frame_outcome (net s) (heap s') f2 = call_outcome (res1, s1)"
    by (simp add: assms(1))
  have ret: "\<forall>r. f1 = Returned r \<or> f2 = Returned r \<longrightarrow>
            returned_report (res1, s1) = Some (heap s' ! r)"
    using o1 o2 by (auto simp: call_outcome_Inr [symmetric])
  have rai: "\<forall>e. f1 = Raised e \<or> f2 = Raised e \<longrightarrow> res1 = Inl e"
    using o1 o2 by (auto simp: call_outcome_def split: sum.splits)
  from ic have ne: "\<forall>r1 r2. f1 = Returned r1 \<and> f2 = Returned r2 \<longrightarrow> r1 \<noteq> r2"
    by auto
  have l: "frame_left Entered = 5" by (simp add: servers_def)
  from interleave_left [OF assms(3)] l
  have "(5 \<le> length (filter id sched) \<longrightarrow> frame_left f1 = 0) \<and>
        (5 \<le> length (filter Not sched) \<longrightarrow> frame_left f2 = 0)"
    by auto
  then have fin: "(5 \<le> length (filter id sched) \<longrightarrow> finished f1) \<and>
        (5 \<le> length (filter Not sched) \<longrightarrow> finished f2)"
    by (simp add: frame_left_finished)
  from a b c d e f n t ret rai ne fin show ?thesis by (intro conjI) blast+
qed

theorem calls_share_no_state_witness:
  "\<exists>r1 s1 r2 s2 q1 q2 s'.
      check_server_status s_all_up = (Inr r1, s1) \<and>
      check_server_status s1 = (Inr r2, s2) \<and>
      interleave [True, False, True, False, True, False, True, False, True, False]
        Entered Entered s_all_up = (Returned q1, Returned q2, s') \<and>
      take (length (heap s_all_up)) (heap s1) = heap s_all_up \<and>
      r1 \<noteq> r2 \<and> heap s2 ! r1 = heap s1 ! r1 \<and>
      returned_report (Inr r2, s2) = returned_report (Inr r1, s1) \<and>
      take (length (heap s_all_up)) (heap s') = heap s_all_up \<and>
      q1 \<noteq> q2 \<and>
      returned_report (Inr r1, s1) = Some (heap s' ! q1) \<and>
      returned_report (Inr r1, s1) = Some (heap s' ! q2)"
proof -
  from check_server_status_completes [OF s_all_up_completes]
  obtain r1 s1 where c1: "check_server_status s_all_up = (Inr r1, s1)" by blast
  from check_server_status_frame [OF c1] have "net s1 = net s_all_up" by simp
  from every_probe_completes_net [OF this] s_all_up_completes have "every_probe_completes s1"
    by simp
  from check_server_status_completes [OF this]
  obtain r2 s2 where c2: "check_server_status s1 = (Inr r2, s2)" by blast
  obtain s' where run:
    "interleave [True, False, True, False, True, False, True, False, True, False]
        Entered Entered s_all_up = (Returned 1, Returned 2, s')"
    by (simp add: s_all_up_def new_dict_def servers_def loop_body_defs except_clause_def)
  from calls_share_no_state [OF c1 c2 run] c1 c2 run show ?thesis by blast
qed

text \<open>
  C9. The keys of the returned mapping stand in the order frontend, backend, redis,
  whatever the outcomes of the probes.
\<close>

theorem report_key_order:
  assumes "every_probe_completes s"
  shows "\<exists>d. returned_report (check_server_status s) = Some d \<and>
             map fst d = [''frontend'', ''backend'', ''redis'']"
  by (simp add: check_server_status_report [OF assms])

theorem report_key_order_witness:
  "every_probe_completes s_all_up \<and>
   (\<exists>d. returned_report (check_server_status s_all_up) = Some d \<and>
        map fst d = [''frontend'', ''backend'', ''redis''])"
  using report_key_order [OF s_all_up_completes] s_all_up_completes by simp

text \<open>
  C10. The status of a target depends on the outcome of its own connection alone: it is
  UP when the target's own connection is established and closes without error, and DOWN
  otherwise. Two calls that meet networks agreeing on that report the same status for
  the target, however the other targets differ.
\<close>

theorem status_depends_on_own_outcome:
  assumes "every_probe_completes s1" and "every_probe_completes s2"
    and "(name, a) \<in> set servers"
    and "(connecting (net s1) a 1 = Established \<and> closing (net s1) a = None) =
         (connecting (net s2) a 1 = Established \<and> closing (net s2) a = None)"
  shows "\<exists>d1 d2. returned_report (check_server_status s1) = Some d1 \<and>
                 returned_report (check_server_status s2) = Some d2 \<and>
                 map_of d1 name = map_of d2 name \<and>
                 map_of d1 name =
                   Some (if connecting (net s1) a 1 = Established \<and> closing (net s1) a = None
                         then ''UP'' else ''DOWN'')"
proof -
  from report_lookup [OF assms(1,3)] obtain d1 where
    d1: "returned_report (check_server_status s1) = Some d1"
      "map_of d1 name = Some (status_of (probe_verdict (net s1) a))" by blast
  from report_lookup [OF assms(2,3)] obtain d2 where
    d2: "returned_report (check_server_status s2) = Some d2"
      "map_of d2 name = Some (status_of (probe_verdict (net s2) a))" by blast
  from assms(4) have "status_of (probe_verdict (net s1) a) = status_of (probe_verdict (net s2) a)"
    by (simp only: status_of_probe)
  with d1 d2 show ?thesis
    by (simp add: status_of_probe)
qed

theorem status_depends_on_own_outcome_witness:
  "every_probe_completes s_backend_up \<and> every_probe_completes s_all_up \<and>
   (''backend'', (''localhost'', 3001)) \<in> set servers \<and>
   connecting (net s_backend_up) (''localhost'', 3001) 1 = Established \<and>
   connecting (net s_all_up) (''localhost'', 3001) 1 = Established \<and>
   connecting (net s_backend_up) (''localhost'', 6379) 1 \<noteq>
     connecting (net s_all_up) (''localhost'', 6379) 1 \<and>
   (\<exists>d1 d2. returned_report (check_server_status s_backend_up) = Some d1 \<and>
        returned_report (check_server_status s_all_up) = Some d2 \<and>
        map_of d1 ''backend'' = map_of d2 ''backend'' \<and>
        map_of d1 ''backend'' = Some ''UP'')"
proof -
  have m: "(''backend'', (''localhost'', 3001)) \<in> set servers" by (simp add: servers_def)
  have n1: "connecting (net s_backend_up) (''localhost'', 3001) 1 = Established"
    and c1: "closing (net s_backend_up) (''localhost'', 3001) = None"
    by (simp_all add: s_backend_up_def)
  have n2: "connecting (net s_all_up) (''localhost'', 3001) 1 = Established"
    and c2: "closing (net s_all_up) (''localhost'', 3001) = None"
    by (simp_all add: s_all_up_def)
  have n3: "connecting (net s_backend_up) (''localhost'', 6379) 1 \<noteq>
     connecting (net s_all_up) (''localhost'', 6379) 1"
    by (simp add: s_backend_up_def s_all_up_def)
  from n1 c1 n2 c2 have
    "(connecting (net s_backend_up) (''localhost'', 3001) 1 = Established \<and>
      closing (net s_backend_up) (''localhost'', 3001) = None) =
     (connecting (net s_all_up) (''localhost'', 3001) 1 = Established \<and>
      closing (net s_all_up) (''localhost'', 3001) = None)" by simp
  from status_depends_on_own_outcome [OF s_backend_up_completes s_all_up_completes m this]
  obtain d1 d2 where "returned_report (check_server_status s_backend_up) = Some d1"
    "returned_report (check_server_status s_all_up) = Some d2"
    "map_of d1 ''backend'' = map_of d2 ''backend''"
    "map_of d1 ''backend'' =
       Some (if connecting (net s_backend_up) (''localhost'', 3001) 1 = Established \<and>
                closing (net s_backend_up) (''localhost'', 3001) = None
             then ''UP'' else ''DOWN'')"
    by blast
  with n1 c1 n2 n3 m s_backend_up_completes s_all_up_completes show ?thesis by auto
qed

end
